theory Spec2Isabelle
  imports Main "HOL-Library.Word" "HOL-Library.While_Combinator"
begin

unbundle bit_operations_syntax

section \<open>Data model\<close>

text \<open>
  A Node \<open>Buffer\<close> is a list of bytes.  Offsets, lengths and the frame counter are
  JavaScript numbers that start at 0 and only grow, so they are naturals; the one place
  where the source subtracts (\<open>buffer.length - MIN_HEADER_SIZE\<close>, negative for a
  buffer shorter than four bytes) is computed over the integers.
\<close>

type_synonym byte = "8 word"

text \<open>\<open>src/types/index.ts\<close>: every error the parsers raise is an \<open>InvalidMp3Error\<close>
  carrying its message.\<close>

datatype Mp3ParserError = InvalidMp3Error string

text \<open>\<open>src/config/constants.ts\<close>, \<open>MP3_CONSTANTS\<close>.\<close>

definition FRAME_SYNC_BYTE1 :: int where
  "FRAME_SYNC_BYTE1 = 0xff"

definition FRAME_SYNC_BYTE2_MASK :: int where
  "FRAME_SYNC_BYTE2_MASK = 0xe0"

definition FRAME_SIZE_COEFFICIENT :: nat where
  "FRAME_SIZE_COEFFICIENT = 144"

definition BITRATE_MULTIPLIER :: nat where
  "BITRATE_MULTIPLIER = 1000"

definition MIN_HEADER_SIZE :: nat where
  "MIN_HEADER_SIZE = 4"

subsection \<open>JavaScript's 32-bit operators\<close>

text \<open>
  \<open>x >> n\<close> and \<open>x & y\<close> first convert their operands to signed 32-bit integers
  (\<open>ToInt32\<close>, reduction modulo \<open>2^32\<close>), work on the bits, and give the result back as a
  signed number; the shift is arithmetic and its count is taken modulo 32.
\<close>

definition ToInt32 :: "int \<Rightarrow> 32 word" where
  "ToInt32 x = word_of_int x"

definition js_sar :: "int \<Rightarrow> nat \<Rightarrow> int" where
  "js_sar x n = sint (signed_drop_bit (n mod 32) (ToInt32 x))"

definition js_and :: "int \<Rightarrow> int \<Rightarrow> int" where
  "js_and x y = sint (ToInt32 x AND ToInt32 y)"

subsection \<open>Buffers and tables\<close>

text \<open>\<open>buffer[i]\<close> is \<open>undefined\<close> (here \<open>None\<close>) outside the buffer.\<close>

definition buf_at :: "byte list \<Rightarrow> nat \<Rightarrow> int option" where
  "buf_at buf i = (if i < length buf then Some (uint (buf ! i)) else None)"

text \<open>\<open>buffer.readUInt32BE(offset)\<close>: the four bytes from \<open>offset\<close>, most significant
  first, as a number below \<open>2^32\<close>; a range error (\<open>None\<close>) when the first or the last of
  them lies outside the buffer.\<close>

definition readUInt32BE :: "byte list \<Rightarrow> nat \<Rightarrow> int option" where
  "readUInt32BE buf off =
     (case (buf_at buf off, buf_at buf (off + 3)) of
        (Some b0, Some b3) \<Rightarrow>
          Some (b0 * 2 ^ 24 + uint (buf ! (off + 1)) * 2 ^ 16 + uint (buf ! (off + 2)) * 2 ^ 8 + b3)
      | _ \<Rightarrow> None)"

text \<open>\<open>TABLE[i]\<close> on a JavaScript array: \<open>undefined\<close> outside the array.\<close>

definition table_at :: "nat list \<Rightarrow> int \<Rightarrow> nat option" where
  "table_at tbl i = (if 0 \<le> i \<and> i < int (length tbl) then Some (tbl ! nat i) else None)"

section \<open>StreamingMp3Parser\<close>

text \<open>The read stream is opened with \<open>highWaterMark: CHUNK_SIZE\<close>; how it cuts the file
  into chunks is left open here: every result below holds for all chunk sequences.\<close>

definition CHUNK_SIZE :: nat where
  "CHUNK_SIZE = 64 * 1024"

definition BITRATE_TABLE :: "nat list" where
  "BITRATE_TABLE = [0, 32, 40, 48, 56, 64, 80, 96, 112, 128, 160, 192, 224, 256, 320, 0]"

definition SAMPLE_RATE_TABLE :: "nat list" where
  "SAMPLE_RATE_TABLE = [44100, 48000, 32000, 0]"

text \<open>
  \<open>getFrameSize(buffer, offset)\<close>.  The guard of the first line keeps \<open>readUInt32BE\<close>
  inside the buffer, so its range error cannot occur (lemma \<open>readUInt32BE_in_range\<close>
  below); the \<open>None\<close> branch is there only to make the function total.  \<open>!bitrate\<close> holds
  for \<open>undefined\<close> and for 0.  The quotient is a quotient of two integers below \<open>2^53\<close>
  whose divisor is at most 48000, hence \<open>Math.floor\<close> of the floating-point division is the
  integer quotient.
\<close>

definition getFrameSize :: "byte list \<Rightarrow> nat \<Rightarrow> nat" where
  "getFrameSize buf off =
     (if off + MIN_HEADER_SIZE > length buf then 0
      else case readUInt32BE buf off of
        None \<Rightarrow> 0
      | Some header \<Rightarrow>
          (let bitrateIndex = js_and (js_sar header 12) 0x0f;
               bitrate = table_at BITRATE_TABLE bitrateIndex;
               sampleRateIndex = js_and (js_sar header 10) 0x03;
               sampleRate = table_at SAMPLE_RATE_TABLE sampleRateIndex;
               padding = js_and (js_sar header 9) 0x01
           in case (bitrate, sampleRate) of
                (Some br, Some sr) \<Rightarrow>
                  if br = 0 \<or> sr = 0 then 0
                  else nat (int ((FRAME_SIZE_COEFFICIENT * br * BITRATE_MULTIPLIER) div sr) + padding)
              | _ \<Rightarrow> 0))"

text \<open>The frame-sync test of the scan loops: both bytes are there, the first is \<open>0xff\<close>
  and the three top bits of the second are set.\<close>

definition frame_sync :: "byte list \<Rightarrow> nat \<Rightarrow> bool" where
  "frame_sync buf off =
     (case (buf_at buf off, buf_at buf (off + 1)) of
        (Some byte1, Some byte2) \<Rightarrow>
          byte1 = FRAME_SYNC_BYTE1 \<and> js_and byte2 FRAME_SYNC_BYTE2_MASK = FRAME_SYNC_BYTE2_MASK
      | _ \<Rightarrow> False)"

text \<open>The loop condition shared by both scanners:
  \<open>offset < buffer.length - MP3_CONSTANTS.MIN_HEADER_SIZE\<close>.\<close>

definition loop_cond :: "byte list \<Rightarrow> nat \<Rightarrow> bool" where
  "loop_cond buf off = (int off < int (length buf) - int MIN_HEADER_SIZE)"

text \<open>One pass through the body of the \<open>while\<close> loop of the \<open>data\<close> handler: either
  the new offset and frame count, or the \<open>break\<close> on a frame that is not yet complete.\<close>

datatype loop_step = Advance nat nat | Break

definition stream_body :: "byte list \<Rightarrow> nat \<Rightarrow> nat \<Rightarrow> loop_step" where
  "stream_body buf off cnt =
     (if frame_sync buf off then
        (let frameSize = getFrameSize buf off in
         if frameSize > 0 then
           (if off + frameSize \<le> length buf then Advance (off + frameSize) (cnt + 1)
            else Break)
         else Advance (off + 1) cnt)
      else Advance (off + 1) cnt)"

function stream_loop :: "byte list \<Rightarrow> nat \<Rightarrow> nat \<Rightarrow> nat \<times> nat" where
  "stream_loop buf off cnt =
     (if loop_cond buf off then
        (case stream_body buf off cnt of
           Advance off' cnt' \<Rightarrow> stream_loop buf off' cnt'
         | Break \<Rightarrow> (off, cnt))
      else (off, cnt))"
  by pat_completeness auto
termination
  by (relation "measure (\<lambda>(buf, off, cnt). length buf - off)")
     (auto simp: stream_body_def loop_cond_def Let_def split: if_splits)

declare stream_loop.simps [simp del]

text \<open>The variables \<open>frameCount\<close>, \<open>buffer\<close> and \<open>offset\<close> that the handlers of one
  \<open>getFrameCount\<close> call share.\<close>

record scan_state =
  buffer :: "byte list"
  offset :: nat
  frameCount :: nat

definition initial_state :: scan_state where
  "initial_state = \<lparr>buffer = [], offset = 0, frameCount = 0\<rparr>"

text \<open>The \<open>data\<close> handler: append the chunk, scan, keep the bytes from the cursor on.\<close>

definition on_data :: "scan_state \<Rightarrow> byte list \<Rightarrow> scan_state" where
  "on_data s chunk =
     (let buf = buffer s @ chunk;
          (off, cnt) = stream_loop buf (offset s) (frameCount s)
      in if off > 0 then \<lparr>buffer = drop off buf, offset = 0, frameCount = cnt\<rparr>
         else \<lparr>buffer = buf, offset = off, frameCount = cnt\<rparr>)"

text \<open>The \<open>end\<close> handler.\<close>

definition on_end :: "scan_state \<Rightarrow> Mp3ParserError + nat" where
  "on_end s =
     (if frameCount s = 0 then Inl (InvalidMp3Error ''No valid MP3 frames found'')
      else Inr (frameCount s))"

text \<open>How the read stream closes: with \<open>end\<close>, or with \<open>error\<close> and its message.\<close>

datatype stream_close = End | Error string

text \<open>\<open>getFrameCount()\<close>: the read stream delivers the chunks in order and then closes.\<close>

definition StreamingMp3Parser_getFrameCount ::
    "byte list list \<Rightarrow> stream_close \<Rightarrow> Mp3ParserError + nat" where
  "StreamingMp3Parser_getFrameCount chunks fin =
     (let s = foldl on_data initial_state chunks
      in case fin of
           End \<Rightarrow> on_end s
         | Error message \<Rightarrow> Inl (InvalidMp3Error (''Error reading file: '' @ message)))"

text \<open>The constructor, over a file system that maps the paths of existing files to
  their contents.\<close>

definition new_StreamingMp3Parser ::
    "(string \<rightharpoonup> byte list) \<Rightarrow> string \<Rightarrow> Mp3ParserError + string" where
  "new_StreamingMp3Parser fs filePath =
     (if filePath = [] then Inl (InvalidMp3Error ''File path is required'')
      else case fs filePath of
        None \<Rightarrow> Inl (InvalidMp3Error ''File does not exist'')
      | Some content \<Rightarrow>
          if length content = 0 then Inl (InvalidMp3Error ''File is empty'')
          else Inr filePath)"

text \<open>The streaming scan as the upload route runs it: construct the parser, then count.\<close>

definition streaming_scan ::
    "(string \<rightharpoonup> byte list) \<Rightarrow> string \<Rightarrow> byte list list \<Rightarrow> stream_close
       \<Rightarrow> Mp3ParserError + nat" where
  "streaming_scan fs filePath chunks fin =
     (case new_StreamingMp3Parser fs filePath of
        Inl e \<Rightarrow> Inl e
      | Inr p \<Rightarrow> StreamingMp3Parser_getFrameCount chunks fin)"

section \<open>Mp3Parser\<close>

definition Mp3Parser_BITRATE_TABLE :: "nat list" where
  "Mp3Parser_BITRATE_TABLE = [0, 32, 40, 48, 56, 64, 80, 96, 112, 128, 160, 192, 224, 256, 320, 0]"

definition Mp3Parser_SAMPLE_RATE_TABLE :: "nat list" where
  "Mp3Parser_SAMPLE_RATE_TABLE = [44100, 48000, 32000, 0]"

definition Mp3Parser_getFrameSize :: "byte list \<Rightarrow> nat \<Rightarrow> nat" where
  "Mp3Parser_getFrameSize buf off =
     (if off + MIN_HEADER_SIZE > length buf then 0
      else case readUInt32BE buf off of
        None \<Rightarrow> 0
      | Some header \<Rightarrow>
          (let bitrateIndex = js_and (js_sar header 12) 0x0f;
               bitrate = table_at Mp3Parser_BITRATE_TABLE bitrateIndex;
               sampleRateIndex = js_and (js_sar header 10) 0x03;
               sampleRate = table_at Mp3Parser_SAMPLE_RATE_TABLE sampleRateIndex;
               padding = js_and (js_sar header 9) 0x01
           in case (bitrate, sampleRate) of
                (Some br, Some sr) \<Rightarrow>
                  if br = 0 \<or> sr = 0 then 0
                  else nat (int ((FRAME_SIZE_COEFFICIENT * br * BITRATE_MULTIPLIER) div sr) + padding)
              | _ \<Rightarrow> 0))"

text \<open>The body of the \<open>while\<close> loop of \<open>Mp3Parser.getFrameCount\<close>; it has no
  \<open>break\<close> and no test that the frame fits.\<close>

definition mp3_body :: "byte list \<Rightarrow> nat \<Rightarrow> nat \<Rightarrow> nat \<times> nat" where
  "mp3_body buf off cnt =
     (if frame_sync buf off then
        (let frameSize = Mp3Parser_getFrameSize buf off in
         if frameSize > 0 then (off + frameSize, cnt + 1)
         else (off + 1, cnt))
      else (off + 1, cnt))"

function mp3_loop :: "byte list \<Rightarrow> nat \<Rightarrow> nat \<Rightarrow> nat \<times> nat" where
  "mp3_loop buf off cnt =
     (if loop_cond buf off then
        mp3_loop buf (fst (mp3_body buf off cnt)) (snd (mp3_body buf off cnt))
      else (off, cnt))"
  by pat_completeness auto
termination
  by (relation "measure (\<lambda>(buf, off, cnt). length buf - off)")
     (auto simp: mp3_body_def loop_cond_def Let_def split: if_splits)

declare mp3_loop.simps [simp del]

definition Mp3Parser_getFrameCount :: "byte list \<Rightarrow> Mp3ParserError + nat" where
  "Mp3Parser_getFrameCount buf =
     (let (off, cnt) = mp3_loop buf 0 0
      in if cnt = 0 then Inl (InvalidMp3Error ''No valid MP3 frames found'')
         else Inr cnt)"

text \<open>The constructor; \<open>file.buffer\<close> may be missing.\<close>

definition new_Mp3Parser :: "byte list option \<Rightarrow> Mp3ParserError + byte list" where
  "new_Mp3Parser file_buffer =
     (case file_buffer of
        None \<Rightarrow> Inl (InvalidMp3Error ''File buffer is missing'')
      | Some buf \<Rightarrow>
          if length buf = 0 then Inl (InvalidMp3Error ''File is empty'')
          else Inr buf)"

definition whole_buffer_scan :: "byte list option \<Rightarrow> Mp3ParserError + nat" where
  "whole_buffer_scan file_buffer =
     (case new_Mp3Parser file_buffer of
        Inl e \<Rightarrow> Inl e
      | Inr buf \<Rightarrow> Mp3Parser_getFrameCount buf)"

section \<open>The loops as \<open>while\<close> programs\<close>

text \<open>
  The same two loops written with the \<open>while\<close> combinator, whose value is \<open>None\<close> when
  the loop runs forever.  The streaming loop carries a flag for its \<open>break\<close>.
\<close>

definition mp3_while :: "byte list \<Rightarrow> nat \<times> nat \<Rightarrow> (nat \<times> nat) option" where
  "mp3_while buf =
     while_option (\<lambda>(off, cnt). loop_cond buf off) (\<lambda>(off, cnt). mp3_body buf off cnt)"

definition stream_while :: "byte list \<Rightarrow> nat \<times> nat \<times> bool \<Rightarrow> (nat \<times> nat \<times> bool) option" where
  "stream_while buf =
     while_option (\<lambda>(off, cnt, broke). \<not> broke \<and> loop_cond buf off)
       (\<lambda>(off, cnt, broke).
          case stream_body buf off cnt of
            Advance off' cnt' \<Rightarrow> (off', cnt', False)
          | Break \<Rightarrow> (off, cnt, True))"

section \<open>The decoder of the specification\<close>

text \<open>
  The frame header decoder as the specification words it, on a 32-bit header:
  logical shifts and masks, the two tables, rejection (\<open>None\<close>) when either table entry
  is 0, otherwise \<open>floor(144 * bitrateKbps * 1000 / sampleRateHz) + padding\<close>.
\<close>

definition spec_bitrateIndex :: "32 word \<Rightarrow> nat" where
  "spec_bitrateIndex h = unat (drop_bit 12 h AND 0xF)"

definition spec_sampleRateIndex :: "32 word \<Rightarrow> nat" where
  "spec_sampleRateIndex h = unat (drop_bit 10 h AND 0x3)"

definition spec_padding :: "32 word \<Rightarrow> nat" where
  "spec_padding h = unat (drop_bit 9 h AND 0x1)"

definition spec_decode :: "32 word \<Rightarrow> nat option" where
  "spec_decode h =
     (let bitrateKbps = [0, 32, 40, 48, 56, 64, 80, 96, 112, 128, 160, 192, 224, 256, 320, 0]
                          ! spec_bitrateIndex h;
          sampleRateHz = [44100, 48000, 32000, 0] ! spec_sampleRateIndex h
      in if bitrateKbps = 0 \<or> sampleRateHz = 0 then None
         else Some (144 * bitrateKbps * 1000 div sampleRateHz + spec_padding h))"

text \<open>The 32-bit header made of four bytes, most significant first, and the header
  at an offset of a buffer that holds at least four bytes from there.\<close>

definition header_of :: "byte \<Rightarrow> byte \<Rightarrow> byte \<Rightarrow> byte \<Rightarrow> 32 word" where
  "header_of b0 b1 b2 b3 =
     word_of_int (uint b0 * 2 ^ 24 + uint b1 * 2 ^ 16 + uint b2 * 2 ^ 8 + uint b3)"

definition header_at :: "byte list \<Rightarrow> nat \<Rightarrow> 32 word" where
  "header_at buf off = header_of (buf ! off) (buf ! (off + 1)) (buf ! (off + 2)) (buf ! (off + 3))"

text \<open>The four bytes of a header, most significant first.\<close>

definition be_bytes :: "32 word \<Rightarrow> byte list" where
  "be_bytes h = [ucast (drop_bit 24 h), ucast (drop_bit 16 h), ucast (drop_bit 8 h), ucast h]"

text \<open>The header \<open>FF FB 90 00\<close> (128 kbit/s, 44100 Hz, no padding) and the frame of
  417 bytes that starts with it and is zero from there on.\<close>

definition header417 :: "byte list" where
  "header417 = [0xFF, 0xFB, 0x90, 0x00]"

definition frame417 :: "byte list" where
  "frame417 = header417 @ replicate 413 0"

section \<open>The decoder\<close>

lemma uint_byte_bounds: "0 \<le> uint (b :: byte) \<and> uint b < 256"
  using uint_bounded [of b] by simp

lemma uint_header_of:
  "uint (header_of b0 b1 b2 b3) = uint b0 * 2 ^ 24 + uint b1 * 2 ^ 16 + uint b2 * 2 ^ 8 + uint b3"
proof -
  let ?x = "uint b0 * 2 ^ 24 + uint b1 * 2 ^ 16 + uint b2 * 2 ^ 8 + uint b3"
  have "0 \<le> ?x" "?x < 2 ^ 32"
    using uint_byte_bounds [of b0] uint_byte_bounds [of b1]
      uint_byte_bounds [of b2] uint_byte_bounds [of b3] by simp_all
  then have "take_bit 32 ?x = ?x"
    by (simp only: take_bit_int_eq_self)
  moreover have "uint (word_of_int ?x :: 32 word) = take_bit LENGTH(32) ?x"
    by (rule uint_word_of_int_eq)
  ultimately show ?thesis
    unfolding header_of_def by simp
qed

lemma readUInt32BE_in_range:
  "off + 4 \<le> length buf \<Longrightarrow> readUInt32BE buf off = Some (uint (header_at buf off))"
  by (simp add: readUInt32BE_def buf_at_def header_at_def uint_header_of)

lemma readUInt32BE_out_of_range:
  "length buf < off + 4 \<Longrightarrow> readUInt32BE buf off = None"
  by (simp add: readUInt32BE_def buf_at_def)

lemma sar_and: "k + n \<le> 31 \<Longrightarrow> signed_drop_bit n (w :: 32 word) AND mask k = drop_bit n w AND mask k"
  by (rule bit_word_eqI) (auto simp: bit_simps)

lemma sint_and_mask: "k \<le> 31 \<Longrightarrow> sint ((w :: 32 word) AND mask k) = uint (w AND mask k)"
  by (rule bit_eqI) (auto simp: bit_simps)

lemma ToInt32_mask: "ToInt32 (2 ^ k - 1) = mask k"
  by (simp add: ToInt32_def mask_eq_exp_minus_1)

lemma js_and_sar:
  assumes "n + k \<le> 31"
  shows "js_and (js_sar (uint (h :: 32 word)) n) (2 ^ k - 1) = uint (drop_bit n h AND mask k)"
proof -
  from assms have n: "n mod 32 = n" by simp
  have "js_and (js_sar (uint h) n) (2 ^ k - 1) = sint (signed_drop_bit n h AND mask k)"
    using ToInt32_mask [of k] by (simp add: js_and_def js_sar_def n) (simp add: ToInt32_def)
  also have "\<dots> = sint (drop_bit n h AND mask k)"
    using assms by (simp add: sar_and)
  also have "\<dots> = uint (drop_bit n h AND mask k)"
    using assms by (simp add: sint_and_mask)
  finally show ?thesis .
qed

lemma js_bitrateIndex: "js_and (js_sar (uint h) 12) 0x0f = int (spec_bitrateIndex h)"
  using js_and_sar [of 12 4 h] by (simp add: spec_bitrateIndex_def mask_numeral)

lemma js_sampleRateIndex: "js_and (js_sar (uint h) 10) 0x03 = int (spec_sampleRateIndex h)"
  using js_and_sar [of 10 2 h] by (simp add: spec_sampleRateIndex_def mask_numeral)

lemma js_padding: "js_and (js_sar (uint h) 9) 0x01 = int (spec_padding h)"
  using js_and_sar [of 9 1 h] by (simp add: spec_padding_def)

lemma spec_bitrateIndex_less: "spec_bitrateIndex h < 16"
proof -
  have "drop_bit 12 h AND 0xF \<le> 0xF" by (rule word_and_le1)
  then show ?thesis by (simp add: spec_bitrateIndex_def word_le_nat_alt)
qed

lemma spec_sampleRateIndex_less: "spec_sampleRateIndex h < 4"
proof -
  have "drop_bit 10 h AND 0x3 \<le> 0x3" by (rule word_and_le1)
  then show ?thesis by (simp add: spec_sampleRateIndex_def word_le_nat_alt)
qed

lemma spec_padding_le: "spec_padding h \<le> 1"
proof -
  have "drop_bit 9 h AND 0x1 \<le> 0x1" by (rule word_and_le1)
  then show ?thesis by (simp add: spec_padding_def word_le_nat_alt)
qed

lemma getFrameSize_spec_decode:
  assumes "off + 4 \<le> length buf"
  shows "getFrameSize buf off = (case spec_decode (header_at buf off) of None \<Rightarrow> 0 | Some n \<Rightarrow> n)"
  using assms spec_bitrateIndex_less [of "header_at buf off"]
    spec_sampleRateIndex_less [of "header_at buf off"]
  by (simp add: getFrameSize_def MIN_HEADER_SIZE_def readUInt32BE_in_range js_bitrateIndex
      js_sampleRateIndex js_padding table_at_def BITRATE_TABLE_def SAMPLE_RATE_TABLE_def
      spec_decode_def Let_def FRAME_SIZE_COEFFICIENT_def BITRATE_MULTIPLIER_def nat_add_distrib)

lemma Mp3Parser_getFrameSize_eq: "Mp3Parser_getFrameSize buf off = getFrameSize buf off"
  unfolding Mp3Parser_getFrameSize_def getFrameSize_def Mp3Parser_BITRATE_TABLE_def
    Mp3Parser_SAMPLE_RATE_TABLE_def BITRATE_TABLE_def SAMPLE_RATE_TABLE_def ..

lemma frame_sizes_table:
  "list_all (\<lambda>br. list_all (\<lambda>sr. br \<noteq> 0 \<longrightarrow> sr \<noteq> 0 \<longrightarrow>
       96 \<le> 144 * br * 1000 div sr \<and> 144 * br * 1000 div sr \<le> 1440)
     [44100, 48000, 32000, 0 :: nat])
     [0, 32, 40, 48, 56, 64, 80, 96, 112, 128, 160, 192, 224, 256, 320, 0 :: nat]"
  by simp

lemma spec_decode_bounds:
  assumes "spec_decode h = Some n"
  shows "96 \<le> n \<and> n \<le> 1441"
proof -
  let ?bt = "[0, 32, 40, 48, 56, 64, 80, 96, 112, 128, 160, 192, 224, 256, 320, 0 :: nat]"
  let ?st = "[44100, 48000, 32000, 0 :: nat]"
  let ?br = "?bt ! spec_bitrateIndex h" and ?sr = "?st ! spec_sampleRateIndex h"
  from assms have nz: "?br \<noteq> 0" "?sr \<noteq> 0" and n: "n = 144 * ?br * 1000 div ?sr + spec_padding h"
    by (auto simp: spec_decode_def Let_def split: if_splits)
  have "spec_bitrateIndex h < length ?bt" "spec_sampleRateIndex h < length ?st"
    using spec_bitrateIndex_less [of h] spec_sampleRateIndex_less [of h] by simp_all
  with frame_sizes_table nz have "96 \<le> 144 * ?br * 1000 div ?sr \<and> 144 * ?br * 1000 div ?sr \<le> 1440"
    unfolding list_all_length by blast
  with n spec_padding_le [of h] show ?thesis by simp
qed

lemma lt16: "(i::nat) < 16 \<Longrightarrow> i \<in> set [0, 1, 2, 3, 4, 5, 6, 7, 8, 9, 10, 11, 12, 13, 14, 15]"
proof -
  assume "i < 16"
  then have "i \<in> set [0..<16]" by simp
  also have "[0..<16] = [0, 1, 2, 3, 4, 5, 6, 7, 8, 9, 10, 11, 12, 13, 14, 15 :: nat]"
    by code_simp
  finally show ?thesis .
qed

lemma bitrate_zero:
  "i < 16 \<Longrightarrow> [0, 32, 40, 48, 56, 64, 80, 96, 112, 128, 160, 192, 224, 256, 320, 0 :: nat] ! i = 0
     \<longleftrightarrow> i = 0 \<or> i = 15"
  using lt16 [of i] by auto

lemma sample_rate_zero:
  "i < 4 \<Longrightarrow> [44100, 48000, 32000, 0 :: nat] ! i = 0 \<longleftrightarrow> i = 3"
proof -
  assume "i < 4"
  then have "i \<in> set [0..<4]" by simp
  also have "[0..<4] = [0, 1, 2, 3 :: nat]"
    by code_simp
  finally show ?thesis by auto
qed

lemma split_int32:
  fixes x :: int
  assumes "0 \<le> x" "x < 4294967296"
  shows "x div 2 ^ 24 mod 256 * 2 ^ 24 + x div 2 ^ 16 mod 256 * 2 ^ 16
           + x div 2 ^ 8 mod 256 * 2 ^ 8 + x div 2 ^ 0 mod 256 = x"
proof -
  have a: "x mod (16777216 * 256) = 16777216 * (x div 16777216 mod 256) + x mod 16777216"
    by (rule zmod_zmult2_eq) simp
  have b: "x mod (65536 * 256) = 65536 * (x div 65536 mod 256) + x mod 65536"
    by (rule zmod_zmult2_eq) simp
  have c: "x mod (256 * 256) = 256 * (x div 256 mod 256) + x mod 256"
    by (rule zmod_zmult2_eq) simp
  have d: "x mod 4294967296 = x" using assms by simp
  have a': "x = 16777216 * (x div 16777216 mod 256) + x mod 16777216"
    using a d by simp
  have b': "x mod 16777216 = 65536 * (x div 65536 mod 256) + x mod 65536"
    using b by simp
  have c': "x mod 65536 = 256 * (x div 256 mod 256) + x mod 256"
    using c by simp
  have p: "(2::int) ^ 24 = 16777216" "(2::int) ^ 16 = 65536" "(2::int) ^ 8 = 256" "(2::int) ^ 0 = 1"
    by simp_all
  have e: "x div 1 mod 256 = x mod 256" by simp
  from a' b' c' show ?thesis unfolding p e by linarith
qed

lemma uint_ucast_byte: "uint (ucast (drop_bit k (h :: 32 word)) :: byte) = uint h div 2 ^ k mod 256"
proof -
  have "uint (ucast (drop_bit k h) :: byte) = take_bit 8 (uint (drop_bit k h))"
    by (simp only: unsigned_ucast_eq) simp
  also have "uint (drop_bit k h) = drop_bit k (take_bit 32 (uint h))"
    by (simp only: unsigned_drop_bit_eq) simp
  also have "take_bit 32 (uint h) = uint h"
    using take_bit_int_eq_self [of "uint h" 32] uint_bounded [of h] by simp
  finally show ?thesis
    by (simp only: take_bit_eq_mod drop_bit_eq_div) simp
qed


lemma header_at_be_bytes: "header_at (be_bytes h) 0 = h"
proof -
  have b: "0 \<le> uint h" "uint h < 4294967296"
    using uint_bounded [of h] by simp_all
  have u: "uint (header_at (be_bytes h) 0) =
      uint (ucast (drop_bit 24 h) :: byte) * 2 ^ 24 + uint (ucast (drop_bit 16 h) :: byte) * 2 ^ 16
      + uint (ucast (drop_bit 8 h) :: byte) * 2 ^ 8 + uint (ucast (drop_bit 0 h) :: byte)"
    unfolding header_at_def be_bytes_def uint_header_of by simp
  have "uint (header_at (be_bytes h) 0) = uint h"
    unfolding u uint_ucast_byte by (rule split_int32 [OF b])
  then show ?thesis by (simp only: word_uint_eq_iff)
qed

lemma be_bytes_length: "length (be_bytes h) = 4"
  by (simp add: be_bytes_def)

lemma hdr_eval:
  "spec_bitrateIndex (header_at [0xFF, 0xFB, 0x90, 0x00] 0) = 9"
  "spec_sampleRateIndex (header_at [0xFF, 0xFB, 0x90, 0x00] 0) = 0"
  "spec_padding (header_at [0xFF, 0xFB, 0x90, 0x00] 0) = 0"
  by (simp_all add: header_at_def header_of_def spec_bitrateIndex_def spec_sampleRateIndex_def
      spec_padding_def)

section \<open>The scan loops\<close>

text \<open>The loop condition in plain terms: more than four bytes lie ahead of the cursor.\<close>

lemma loop_cond_iff: "loop_cond buf off \<longleftrightarrow> off + 4 < length buf"
  by (auto simp: loop_cond_def MIN_HEADER_SIZE_def)

lemma window_nth:
  assumes "off + 4 \<le> length a" "j < 4"
  shows "a ! (off + j) = take 4 (drop off a) ! j"
  using assms by simp

lemma window_local:
  assumes a: "off + 4 \<le> length a" and b: "off' + 4 \<le> length b"
    and w: "take 4 (drop off a) = take 4 (drop off' b)"
  shows "frame_sync a off = frame_sync b off'" and "getFrameSize a off = getFrameSize b off'"
proof -
  have n: "a ! (off + j) = b ! (off' + j)" if "j < 4" for j
    using window_nth [OF a that] window_nth [OF b that] w by simp
  from n [of 0] n [of 1] n [of 2] n [of 3]
  have e: "a ! off = b ! off'" "a ! (off + 1) = b ! (off' + 1)"
    "a ! (off + 2) = b ! (off' + 2)" "a ! (off + 3) = b ! (off' + 3)"
    by simp_all
  show "frame_sync a off = frame_sync b off'"
    using a b e by (simp add: frame_sync_def buf_at_def)
  show "getFrameSize a off = getFrameSize b off'"
    using a b e by (simp add: getFrameSize_spec_decode header_at_def)
qed

lemma getFrameSize_bounds:
  assumes "0 < getFrameSize buf off"
  shows "96 \<le> getFrameSize buf off \<and> getFrameSize buf off \<le> 1441"
proof -
  have r: "off + 4 \<le> length buf"
    using assms by (simp add: getFrameSize_def MIN_HEADER_SIZE_def split: if_splits)
  with assms obtain n where "spec_decode (header_at buf off) = Some n" "getFrameSize buf off = n"
    by (auto simp: getFrameSize_spec_decode split: option.splits)
  then show ?thesis using spec_decode_bounds by simp
qed

lemma stream_body_cases:
  "stream_body buf off cnt = Advance off' cnt' \<Longrightarrow>
     (off' = off + 1 \<and> cnt' = cnt \<and> (\<not> frame_sync buf off \<or> getFrameSize buf off = 0)) \<or>
     (off' = off + getFrameSize buf off \<and> cnt' = cnt + 1 \<and> frame_sync buf off \<and>
      0 < getFrameSize buf off \<and> off + getFrameSize buf off \<le> length buf)"
  by (auto simp: stream_body_def Let_def split: if_splits)

lemma stream_body_Break:
  "stream_body buf off cnt = Break \<longleftrightarrow>
     frame_sync buf off \<and> 0 < getFrameSize buf off \<and> length buf < off + getFrameSize buf off"
  by (auto simp: stream_body_def Let_def split: if_splits)

lemma stream_loop_halt: "\<not> loop_cond buf off \<Longrightarrow> stream_loop buf off cnt = (off, cnt)"
  by (simp add: stream_loop.simps)

lemma stream_loop_skip:
  "loop_cond buf off \<Longrightarrow> \<not> frame_sync buf off \<or> getFrameSize buf off = 0 \<Longrightarrow>
     stream_loop buf off cnt = stream_loop buf (off + 1) cnt"
  by (subst stream_loop.simps) (auto simp: stream_body_def)

lemma stream_loop_frame:
  "loop_cond buf off \<Longrightarrow> frame_sync buf off \<Longrightarrow> 0 < getFrameSize buf off \<Longrightarrow>
   off + getFrameSize buf off \<le> length buf \<Longrightarrow>
     stream_loop buf off cnt = stream_loop buf (off + getFrameSize buf off) (cnt + 1)"
  by (subst stream_loop.simps) (simp add: stream_body_def)

lemma stream_loop_break:
  "frame_sync buf off \<Longrightarrow> 0 < getFrameSize buf off \<Longrightarrow>
   length buf < off + getFrameSize buf off \<Longrightarrow> stream_loop buf off cnt = (off, cnt)"
  by (subst stream_loop.simps) (simp add: stream_body_def)

lemma mp3_loop_halt: "\<not> loop_cond buf off \<Longrightarrow> mp3_loop buf off cnt = (off, cnt)"
  by (simp add: mp3_loop.simps)

lemma mp3_loop_skip:
  "loop_cond buf off \<Longrightarrow> \<not> frame_sync buf off \<or> getFrameSize buf off = 0 \<Longrightarrow>
     mp3_loop buf off cnt = mp3_loop buf (off + 1) cnt"
  by (subst mp3_loop.simps) (auto simp: mp3_body_def Mp3Parser_getFrameSize_eq)

lemma mp3_loop_frame:
  "loop_cond buf off \<Longrightarrow> frame_sync buf off \<Longrightarrow> 0 < getFrameSize buf off \<Longrightarrow>
     mp3_loop buf off cnt = mp3_loop buf (off + getFrameSize buf off) (cnt + 1)"
  by (subst mp3_loop.simps) (simp add: mp3_body_def Mp3Parser_getFrameSize_eq)

text \<open>Where the streaming loop stops.\<close>

lemma stream_loop_exit:
  "stream_loop buf off cnt = (p, c) \<Longrightarrow>
     off \<le> p \<and> cnt \<le> c \<and> (off \<le> length buf \<longrightarrow> p \<le> length buf) \<and>
     (\<not> loop_cond buf p \<or>
      (frame_sync buf p \<and> 0 < getFrameSize buf p \<and> length buf < p + getFrameSize buf p))"
proof (induction buf off cnt rule: stream_loop.induct)
  case (1 buf off cnt)
  show ?case
  proof (cases "loop_cond buf off")
    case False
    with "1.prems" show ?thesis by (simp add: stream_loop_halt)
  next
    case True
    show ?thesis
    proof (cases "stream_body buf off cnt")
      case (Advance off' cnt')
      with True "1.prems" have r: "stream_loop buf off' cnt' = (p, c)"
        by (simp add: stream_loop.simps [of buf off cnt])
      from stream_body_cases [OF Advance] have "off < off'" "cnt \<le> cnt'" "off' \<le> length buf"
        using True by (auto simp: loop_cond_iff)
      with "1.IH" [OF True Advance r] show ?thesis by simp
    next
      case Break
      with True "1.prems" have "p = off" "c = cnt"
        by (simp_all add: stream_loop.simps [of buf off cnt])
      with Break show ?thesis by (simp add: stream_body_Break)
    qed
  qed
qed

text \<open>Where the whole-buffer loop stops.\<close>

lemma mp3_loop_exit: "mp3_loop buf off cnt = (p, c) \<Longrightarrow> \<not> loop_cond buf p"
proof (induction buf off cnt rule: mp3_loop.induct)
  case (1 buf off cnt)
  show ?case
  proof (cases "loop_cond buf off")
    case False
    with "1.prems" show ?thesis by (simp add: mp3_loop_halt)
  next
    case True
    with "1.prems"
    have "mp3_loop buf (fst (mp3_body buf off cnt)) (snd (mp3_body buf off cnt)) = (p, c)"
      by (simp add: mp3_loop.simps [of buf off cnt])
    from "1.IH" [OF True this] show ?thesis .
  qed
qed

text \<open>More data behind the buffer does not change what the loop has already done.\<close>

lemma stream_loop_append:
  "stream_loop buf off cnt = (p, c) \<Longrightarrow>
     stream_loop (buf @ ext) off cnt = stream_loop (buf @ ext) p c"
proof (induction buf off cnt rule: stream_loop.induct)
  case (1 buf off cnt)
  show ?case
  proof (cases "loop_cond buf off")
    case False
    with "1.prems" show ?thesis by (simp add: stream_loop_halt)
  next
    case True
    then have r: "off + 4 \<le> length buf" "off + 4 \<le> length (buf @ ext)"
      and lc: "loop_cond (buf @ ext) off"
      by (simp_all add: loop_cond_iff)
    have w: "take 4 (drop off (buf @ ext)) = take 4 (drop off buf)"
      using r by simp
    note loc = window_local [OF r(2) r(1) w]
    show ?thesis
    proof (cases "stream_body buf off cnt")
      case (Advance off' cnt')
      with True "1.prems" have s: "stream_loop buf off' cnt' = (p, c)"
        by (simp add: stream_loop.simps [of buf off cnt])
      from stream_body_cases [OF Advance] loc lc
      have "stream_loop (buf @ ext) off cnt = stream_loop (buf @ ext) off' cnt'"
        by (auto simp: stream_loop_skip stream_loop_frame)
      with "1.IH" [OF True Advance s] show ?thesis by simp
    next
      case Break
      with True "1.prems" show ?thesis
        by (simp add: stream_loop.simps [of buf off cnt])
    qed
  qed
qed

text \<open>Dropping the consumed prefix only shifts the cursor.\<close>

lemma stream_loop_drop:
  "k \<le> length buf \<Longrightarrow> stream_loop (drop k buf) off cnt = (p, c) \<Longrightarrow>
     stream_loop buf (k + off) cnt = (k + p, c)"
proof (induction "drop k buf" off cnt arbitrary: rule: stream_loop.induct)
  case (1 off cnt)
  let ?d = "drop k buf"
  show ?case
  proof (cases "loop_cond ?d off")
    case False
    with "1.prems" have "p = off" "c = cnt" by (simp_all add: stream_loop_halt)
    moreover from False "1.prems"(1) have "\<not> loop_cond buf (k + off)"
      by (simp add: loop_cond_iff)
    ultimately show ?thesis by (simp add: stream_loop_halt)
  next
    case True
    with "1.prems"(1) have r: "off + 4 \<le> length ?d" "k + off + 4 \<le> length buf"
      and lc: "loop_cond buf (k + off)"
      by (simp_all add: loop_cond_iff)
    have w: "take 4 (drop (k + off) buf) = take 4 (drop off ?d)"
      by (simp add: add.commute)
    note loc = window_local [OF r(2) r(1) w]
    show ?thesis
    proof (cases "stream_body ?d off cnt")
      case (Advance off' cnt')
      with True "1.prems" have s: "stream_loop ?d off' cnt' = (p, c)"
        by (simp add: stream_loop.simps [of ?d off cnt])
      from stream_body_cases [OF Advance] loc lc "1.prems"(1)
      have "stream_loop buf (k + off) cnt = stream_loop buf (k + off') cnt'"
        by (auto simp: stream_loop_skip stream_loop_frame add.assoc)
      with "1.hyps" [OF True Advance "1.prems"(1) s] show ?thesis by simp
    next
      case Break
      with True "1.prems" have e: "p = off" "c = cnt"
        by (simp_all add: stream_loop.simps [of ?d off cnt])
      from Break loc "1.prems"(1) have "stream_loop buf (k + off) cnt = (k + off, cnt)"
        by (intro stream_loop_break) (auto simp: stream_body_Break)
      with e show ?thesis by simp
    qed
  qed
qed

section \<open>Chunks\<close>

text \<open>The state between two chunks, against all the data \<open>D\<close> delivered so far: the
  pending buffer is what lies behind the cursor \<open>p\<close> that one scan of \<open>D\<close> reaches.\<close>

lemma stream_loop_exit_fixed:
  assumes "stream_loop buf off cnt = (p, c)"
  shows "stream_loop buf p c = (p, c)"
  using stream_loop_append [OF assms, of "[]"] assms by simp

lemma on_data_tracks:
  assumes p: "p \<le> length D" and b: "buffer s = drop p D" and o: "offset s = 0"
    and l: "stream_loop D 0 0 = (p, frameCount s)"
  shows "\<exists>p'. p' \<le> length (D @ chunk) \<and> buffer (on_data s chunk) = drop p' (D @ chunk) \<and>
           offset (on_data s chunk) = 0 \<and>
           stream_loop (D @ chunk) 0 0 = (p', frameCount (on_data s chunk))"
proof -
  let ?D = "D @ chunk" and ?buf = "buffer s @ chunk"
  obtain q c where q: "stream_loop ?buf 0 (frameCount s) = (q, c)"
    by (cases "stream_loop ?buf 0 (frameCount s)")
  have buf: "?buf = drop p ?D" using p b by simp
  have pl: "p \<le> length ?D" using p by simp
  from stream_loop_exit [OF q] have ql: "q \<le> length ?buf" by simp
  from stream_loop_drop [OF pl, of 0 "frameCount s" q c] q buf
  have "stream_loop ?D p (frameCount s) = (p + q, c)" by simp
  with stream_loop_append [OF l, of chunk] have t: "stream_loop ?D 0 0 = (p + q, c)" by simp
  have s': "on_data s chunk = \<lparr>buffer = drop q ?buf, offset = 0, frameCount = c\<rparr>"
    using q o by (cases "q = 0") (simp_all add: on_data_def Let_def)
  have "drop q ?buf = drop (p + q) ?D"
    by (simp only: buf drop_drop add.commute)
  moreover have "p + q \<le> length ?D" using ql p b by simp
  ultimately show ?thesis using t s' by auto
qed

lemma foldl_on_data_tracks:
  assumes "p \<le> length D" "buffer s = drop p D" "offset s = 0"
    "stream_loop D 0 0 = (p, frameCount s)"
  shows "\<exists>p'. p' \<le> length (D @ concat chunks) \<and>
           buffer (foldl on_data s chunks) = drop p' (D @ concat chunks) \<and>
           offset (foldl on_data s chunks) = 0 \<and>
           stream_loop (D @ concat chunks) 0 0 = (p', frameCount (foldl on_data s chunks))"
  using assms
proof (induction chunks arbitrary: p D s)
  case Nil
  then show ?case by auto
next
  case (Cons chunk chunks)
  from on_data_tracks [OF Cons.prems, of chunk] obtain p' where
    "p' \<le> length (D @ chunk)" "buffer (on_data s chunk) = drop p' (D @ chunk)"
    "offset (on_data s chunk) = 0"
    "stream_loop (D @ chunk) 0 0 = (p', frameCount (on_data s chunk))" by blast
  from Cons.IH [OF this] show ?case by simp
qed

lemma stream_loop_nil: "stream_loop [] 0 0 = (0, 0)"
  by (simp add: stream_loop_halt loop_cond_iff)

text \<open>The frames the streaming scanner has counted after any sequence of chunks are the
  frames one pass of its loop counts on their concatenation.\<close>

lemma streaming_state:
  "\<exists>p \<le> length (concat chunks).
      buffer (foldl on_data initial_state chunks) = drop p (concat chunks) \<and>
      offset (foldl on_data initial_state chunks) = 0 \<and>
      stream_loop (concat chunks) 0 0 = (p, frameCount (foldl on_data initial_state chunks))"
  using foldl_on_data_tracks [of 0 "[]" initial_state chunks]
  by (simp add: initial_state_def stream_loop_nil)

lemma streaming_frameCount:
  "frameCount (foldl on_data initial_state chunks) = snd (stream_loop (concat chunks) 0 0)"
  using streaming_state [of chunks] by auto

lemma streaming_chunk_independent:
  "StreamingMp3Parser_getFrameCount chunks fin =
   StreamingMp3Parser_getFrameCount [concat chunks] fin"
proof -
  have "frameCount (foldl on_data initial_state chunks) =
        frameCount (foldl on_data initial_state [concat chunks])"
    using streaming_frameCount [of chunks] streaming_frameCount [of "[concat chunks]"] by simp
  then show ?thesis
    by (simp add: StreamingMp3Parser_getFrameCount_def on_end_def Let_def split: stream_close.splits)
qed

lemma streaming_count:
  "StreamingMp3Parser_getFrameCount chunks End =
     (if snd (stream_loop (concat chunks) 0 0) = 0
      then Inl (InvalidMp3Error ''No valid MP3 frames found'')
      else Inr (snd (stream_loop (concat chunks) 0 0)))"
  by (simp add: StreamingMp3Parser_getFrameCount_def on_end_def streaming_frameCount)

text \<open>The whole-buffer loop does what the streaming loop does, and then counts the
  frame on which the streaming loop breaks.\<close>

lemma mp3_loop_follows:
  "stream_loop buf off cnt = (p, c) \<Longrightarrow> mp3_loop buf off cnt = mp3_loop buf p c"
proof (induction buf off cnt rule: stream_loop.induct)
  case (1 buf off cnt)
  show ?case
  proof (cases "loop_cond buf off")
    case False
    with "1.prems" show ?thesis by (simp add: stream_loop_halt)
  next
    case True
    show ?thesis
    proof (cases "stream_body buf off cnt")
      case (Advance off' cnt')
      with True "1.prems" have s: "stream_loop buf off' cnt' = (p, c)"
        by (simp add: stream_loop.simps [of buf off cnt])
      from stream_body_cases [OF Advance] True
      have "mp3_loop buf off cnt = mp3_loop buf off' cnt'"
        by (auto simp: mp3_loop_skip mp3_loop_frame)
      with "1.IH" [OF True Advance s] show ?thesis by simp
    next
      case Break
      with True "1.prems" show ?thesis
        by (simp add: stream_loop.simps [of buf off cnt])
    qed
  qed
qed

lemma mp3_loop_stream_loop:
  assumes "stream_loop buf off cnt = (p, c)"
  shows "mp3_loop buf off cnt =
           (if loop_cond buf p then (p + getFrameSize buf p, c + 1) else (p, c))"
proof (cases "loop_cond buf p")
  case False
  with mp3_loop_follows [OF assms] show ?thesis by (simp add: mp3_loop_halt)
next
  case True
  with stream_loop_exit [OF assms]
  have f: "frame_sync buf p" "0 < getFrameSize buf p" "length buf < p + getFrameSize buf p"
    by simp_all
  then have "\<not> loop_cond buf (p + getFrameSize buf p)"
    by (simp add: loop_cond_iff)
  with mp3_loop_frame [OF True f(1,2)] mp3_loop_follows [OF assms] True
  show ?thesis by (simp add: mp3_loop_halt)
qed

lemma whole_buffer_count:
  "Mp3Parser_getFrameCount buf =
     (if snd (mp3_loop buf 0 0) = 0
      then Inl (InvalidMp3Error ''No valid MP3 frames found'')
      else Inr (snd (mp3_loop buf 0 0)))"
  by (simp add: Mp3Parser_getFrameCount_def split: prod.splits)

text \<open>The two scanners agree on every buffer whose scan does not end on a frame that
  runs past the end of the data.\<close>

lemma scanners_agree:
  assumes "\<not> loop_cond (concat chunks) (fst (stream_loop (concat chunks) 0 0))"
  shows "StreamingMp3Parser_getFrameCount chunks End = Mp3Parser_getFrameCount (concat chunks)"
proof -
  obtain p c where s: "stream_loop (concat chunks) 0 0 = (p, c)"
    by (cases "stream_loop (concat chunks) 0 0")
  with assms mp3_loop_stream_loop [OF s] show ?thesis
    by (simp add: streaming_count whole_buffer_count)
qed

section \<open>Frames in buffers\<close>

lemma header417_decodes: "frame_sync header417 0" "getFrameSize header417 0 = 417"
proof -
  show "frame_sync header417 0"
    by (simp add: header417_def frame_sync_def buf_at_def FRAME_SYNC_BYTE1_def
        FRAME_SYNC_BYTE2_MASK_def js_and_def ToInt32_def)
  have "spec_decode (header_at header417 0) = Some 417"
    by (simp add: header417_def spec_decode_def hdr_eval)
  then show "getFrameSize header417 0 = 417"
    by (simp add: getFrameSize_spec_decode header417_def)
qed

lemma header417_at:
  assumes "off + 4 \<le> length buf" "take 4 (drop off buf) = header417"
  shows "frame_sync buf off" "getFrameSize buf off = 417"
proof -
  have r: "0 + 4 \<le> length header417" by (simp add: header417_def)
  have w: "take 4 (drop off buf) = take 4 (drop 0 header417)"
    using assms(2) by (simp add: header417_def)
  from window_local [OF assms(1) r w] header417_decodes
  show "frame_sync buf off" "getFrameSize buf off = 417" by simp_all
qed

lemma frame_longer_than_header:
  "getFrameSize frame 0 = length frame \<Longrightarrow> 0 < length frame \<Longrightarrow> 96 \<le> length frame"
  using getFrameSize_bounds [of frame 0] by simp


lemma stream_loop_one_frame:
  assumes "frame_sync buf off" and "0 < getFrameSize buf off"
    and "off + getFrameSize buf off = length buf"
  shows "stream_loop buf off cnt = (length buf, cnt + 1)"
proof -
  from getFrameSize_bounds [OF assms(2)] assms(3) have "loop_cond buf off"
    by (simp add: loop_cond_iff)
  from stream_loop_frame [OF this assms(1,2), of cnt] assms(3)
  show ?thesis by (simp add: stream_loop_halt loop_cond_iff)
qed


lemma frame417_length: "length frame417 = 417"
  by (simp add: frame417_def header417_def)

lemma length_concat_replicate: "length (concat (replicate n f)) = n * length f"
  by (induction n) simp_all

lemma drop_concat_replicate:
  "i \<le> n \<Longrightarrow> drop (i * length f) (concat (replicate n f)) = concat (replicate (n - i) f)"
proof (induction i arbitrary: n)
  case 0
  show ?case by simp
next
  case (Suc i)
  then obtain m where n: "n = Suc m" and "i \<le> m" by (cases n) simp_all
  with Suc.IH [of m] show ?case by (simp add: add.commute)
qed

lemma frames417_at:
  assumes "i < n"
  shows "frame_sync (concat (replicate n frame417)) (i * 417)"
    and "getFrameSize (concat (replicate n frame417)) (i * 417) = 417"
proof -
  let ?B = "concat (replicate n frame417)"
  from assms obtain m where m: "n - i = Suc m" by (cases "n - i") simp_all
  have "drop (i * 417) ?B = concat (replicate (n - i) frame417)"
    using drop_concat_replicate [of i n frame417] assms by (simp add: frame417_length)
  then have w: "take 4 (drop (i * 417) ?B) = header417"
    by (simp add: m) (simp add: frame417_def header417_def)
  have "(i + 1) * 417 \<le> n * 417" using assms by (simp only: mult_le_mono1 Suc_leI Suc_eq_plus1 [symmetric])
  then have r: "i * 417 + 4 \<le> length ?B"
    by (simp add: length_concat_replicate frame417_length)
  from header417_at [OF r w]
  show "frame_sync ?B (i * 417)" and "getFrameSize ?B (i * 417) = 417" .
qed

lemma stream_loop_frames417:
  "i \<le> n \<Longrightarrow>
     stream_loop (concat (replicate n frame417)) (i * 417) c = (n * 417, c + (n - i))"
proof (induction "n - i" arbitrary: i c)
  case 0
  then have "i = n" by simp
  then show ?case
    by (simp add: stream_loop_halt loop_cond_iff length_concat_replicate frame417_length)
next
  case (Suc k)
  let ?B = "concat (replicate n frame417)"
  from Suc have i: "i < n" and k: "k = n - (i + 1)" and le: "i + 1 \<le> n" by simp_all
  have "(i + 1) * 417 \<le> n * 417" using le by (rule mult_le_mono1)
  then have fit: "i * 417 + 417 \<le> length ?B"
    by (simp add: length_concat_replicate frame417_length)
  then have lc: "loop_cond ?B (i * 417)" by (simp add: loop_cond_iff)
  note f = frames417_at [OF i]
  from stream_loop_frame [OF lc f(1), of c] f(2) fit
  have "stream_loop ?B (i * 417) c = stream_loop ?B ((i + 1) * 417) (c + 1)"
    by (simp add: add.commute)
  also have "\<dots> = (n * 417, c + 1 + (n - (i + 1)))"
    using Suc.hyps(1) [OF k le] .
  finally show ?case using i by simp
qed

lemma frames417_counts:
  "stream_loop (concat (replicate n frame417)) 0 0 = (n * 417, n)"
  "mp3_loop (concat (replicate n frame417)) 0 0 = (n * 417, n)"
proof -
  show s: "stream_loop (concat (replicate n frame417)) 0 0 = (n * 417, n)"
    using stream_loop_frames417 [of 0 n 0] by simp
  show "mp3_loop (concat (replicate n frame417)) 0 0 = (n * 417, n)"
    using mp3_loop_stream_loop [OF s]
    by (simp add: loop_cond_iff length_concat_replicate frame417_length)
qed

section \<open>The pending buffer\<close>

lemma getFrameSize_le: "getFrameSize buf off \<le> 1441"
  using getFrameSize_bounds [of buf off] by (cases "getFrameSize buf off = 0") simp_all

lemma header_max_decodes: "getFrameSize [0xFF, 0xFB, 0xEA, 0x00] 0 = 1441"
proof -
  let ?h = "header_at [0xFF, 0xFB, 0xEA, 0x00] 0"
  have "spec_bitrateIndex ?h = 14" "spec_sampleRateIndex ?h = 2" "spec_padding ?h = 1"
    by (simp_all add: header_at_def header_of_def spec_bitrateIndex_def spec_sampleRateIndex_def
        spec_padding_def)
  then have "spec_decode ?h = Some 1441"
    by (simp add: spec_decode_def)
  then show ?thesis by (simp add: getFrameSize_spec_decode)
qed

lemma on_data_pending:
  "length (buffer (on_data s chunk)) \<le> 1440"
proof -
  let ?buf = "buffer s @ chunk"
  obtain q c where q: "stream_loop ?buf (offset s) (frameCount s) = (q, c)"
    by (cases "stream_loop ?buf (offset s) (frameCount s)")
  have b: "length (buffer (on_data s chunk)) = length ?buf - q"
    using q by (cases "q = 0") (simp_all add: on_data_def Let_def)
  from stream_loop_exit [OF q]
  have "\<not> loop_cond ?buf q \<or> length ?buf < q + getFrameSize ?buf q" by blast
  then have "length ?buf - q \<le> 1440"
    using getFrameSize_le [of ?buf q] by (auto simp: loop_cond_iff)
  with b show ?thesis by simp
qed

lemma pending_after_chunks:
  "length (buffer (foldl on_data initial_state chunks)) \<le> 1440"
proof (cases chunks rule: rev_cases)
  case Nil
  then show ?thesis by (simp add: initial_state_def)
next
  case (snoc cs c)
  then show ?thesis by (simp add: on_data_pending)
qed

section \<open>Termination of the loops\<close>

lemma mp3_body_advances:
  "off < fst (mp3_body buf off cnt) \<and>
   (\<not> frame_sync buf off \<or> getFrameSize buf off = 0 \<longrightarrow> mp3_body buf off cnt = (off + 1, cnt)) \<and>
   (frame_sync buf off \<and> 0 < getFrameSize buf off \<longrightarrow>
      mp3_body buf off cnt = (off + getFrameSize buf off, cnt + 1))"
  by (simp add: mp3_body_def Mp3Parser_getFrameSize_eq Let_def)

lemma stream_body_advances:
  "stream_body buf off cnt = Advance off' cnt' \<Longrightarrow>
     off < off' \<and>
     (\<not> frame_sync buf off \<or> getFrameSize buf off = 0 \<longrightarrow> off' = off + 1 \<and> cnt' = cnt) \<and>
     (frame_sync buf off \<and> 0 < getFrameSize buf off \<longrightarrow>
        off' = off + getFrameSize buf off \<and> cnt' = cnt + 1)"
  by (auto simp: stream_body_def Let_def split: if_splits)

lemma mp3_while_terminates: "mp3_while buf (off, cnt) = Some (mp3_loop buf off cnt)"
proof (induction buf off cnt rule: mp3_loop.induct)
  case (1 buf off cnt)
  show ?case
  proof (cases "loop_cond buf off")
    case False
    then show ?thesis
      unfolding mp3_while_def by (subst while_option_unfold) (simp add: mp3_loop_halt)
  next
    case True
    have "mp3_while buf (off, cnt) = mp3_while buf (mp3_body buf off cnt)"
      unfolding mp3_while_def using True by (subst while_option_unfold) simp
    also have "\<dots> = mp3_while buf (fst (mp3_body buf off cnt), snd (mp3_body buf off cnt))"
      by simp
    also have "\<dots> = Some (mp3_loop buf (fst (mp3_body buf off cnt)) (snd (mp3_body buf off cnt)))"
      using "1.IH" [OF True] .
    also have "\<dots> = Some (mp3_loop buf off cnt)"
      using True by (simp add: mp3_loop.simps [of buf off cnt])
    finally show ?thesis .
  qed
qed

lemma stream_while_terminates:
  "stream_while buf (off, cnt, False) =
     Some (fst (stream_loop buf off cnt), snd (stream_loop buf off cnt),
           loop_cond buf (fst (stream_loop buf off cnt)))"
proof (induction buf off cnt rule: stream_loop.induct)
  case (1 buf off cnt)
  show ?case
  proof (cases "loop_cond buf off")
    case False
    then show ?thesis
      unfolding stream_while_def by (subst while_option_unfold) (simp add: stream_loop_halt)
  next
    case True
    show ?thesis
    proof (cases "stream_body buf off cnt")
      case (Advance off' cnt')
      have "stream_while buf (off, cnt, False) = stream_while buf (off', cnt', False)"
        unfolding stream_while_def using True Advance by (subst while_option_unfold) simp
      moreover have "stream_loop buf off cnt = stream_loop buf off' cnt'"
        using True Advance by (simp add: stream_loop.simps [of buf off cnt])
      ultimately show ?thesis using "1.IH" [OF True Advance] by simp
    next
      case Break
      have "stream_while buf (off, cnt, False) = stream_while buf (off, cnt, True)"
        unfolding stream_while_def using True Break by (subst while_option_unfold) simp
      also have "\<dots> = Some (off, cnt, True)"
        unfolding stream_while_def by (subst while_option_unfold) simp
      finally show ?thesis
        using True Break by (simp add: stream_loop.simps [of buf off cnt])
    qed
  qed
qed

section \<open>The claims\<close>

text \<open>
  Claim C2.  Wherever \<open>getFrameSize\<close> can read four bytes, with \<open>h\<close> the 32-bit
  big-endian header they form: the result is 0 exactly when the bitrate index
  \<open>(h >> 12) & 0xF\<close> is 0 or 15 or the sample-rate index \<open>(h >> 10) & 0x3\<close> is 3;
  otherwise it is \<open>floor(144 * bitrateKbps * 1000 / sampleRateHz) + padding\<close> with the
  two table entries and \<open>padding = (h >> 9) & 0x1\<close>, and it is at least 1.  The decoder
  of \<open>Mp3Parser\<close> returns the same value.  Every 32-bit \<open>h\<close> is the header of some
  buffer (lemma \<open>header_at_be_bytes\<close>).
\<close>

theorem getFrameSize_decodes_header:
  fixes h :: "32 word"
  assumes "off + 4 \<le> length buf" and "header_at buf off = h"
  shows "(getFrameSize buf off = 0 \<longleftrightarrow>
            spec_bitrateIndex h = 0 \<or> spec_bitrateIndex h = 15 \<or> spec_sampleRateIndex h = 3) \<and>
         (getFrameSize buf off \<noteq> 0 \<longrightarrow>
            getFrameSize buf off =
              144 * ([0, 32, 40, 48, 56, 64, 80, 96, 112, 128, 160, 192, 224, 256, 320, 0]
                       ! spec_bitrateIndex h) * 1000
                div ([44100, 48000, 32000, 0] ! spec_sampleRateIndex h) + spec_padding h \<and>
            1 \<le> getFrameSize buf off) \<and>
         Mp3Parser_getFrameSize buf off = getFrameSize buf off"
proof -
  let ?bt = "[0, 32, 40, 48, 56, 64, 80, 96, 112, 128, 160, 192, 224, 256, 320, 0 :: nat]"
  let ?st = "[44100, 48000, 32000, 0 :: nat]"
  have g: "getFrameSize buf off = (case spec_decode h of None \<Rightarrow> 0 | Some n \<Rightarrow> n)"
    using assms by (simp add: getFrameSize_spec_decode)
  have pos: "0 < n" if "spec_decode h = Some n" for n
    using spec_decode_bounds [OF that] by simp
  have bz: "?bt ! spec_bitrateIndex h = 0 \<longleftrightarrow> spec_bitrateIndex h = 0 \<or> spec_bitrateIndex h = 15"
    using spec_bitrateIndex_less [of h] bitrate_zero by simp
  have sz: "?st ! spec_sampleRateIndex h = 0 \<longleftrightarrow> spec_sampleRateIndex h = 3"
    using spec_sampleRateIndex_less [of h] sample_rate_zero by simp
  have rej: "spec_decode h = None \<longleftrightarrow>
      spec_bitrateIndex h = 0 \<or> spec_bitrateIndex h = 15 \<or> spec_sampleRateIndex h = 3"
    using bz sz by (simp add: spec_decode_def Let_def)
  have zero: "getFrameSize buf off = 0 \<longleftrightarrow> spec_decode h = None"
    using pos by (auto simp: g split: option.splits)
  have val: "getFrameSize buf off = 144 * (?bt ! spec_bitrateIndex h) * 1000
                div (?st ! spec_sampleRateIndex h) + spec_padding h"
    if "getFrameSize buf off \<noteq> 0"
    using that by (auto simp: g spec_decode_def Let_def split: option.splits if_splits)
  show ?thesis
    using zero rej val by (auto simp: Mp3Parser_getFrameSize_eq)
qed

theorem getFrameSize_decodes_header_witness:
  "0 + 4 \<le> length [0xFF, 0xFB, 0x90, 0x00 :: byte] \<and>
   getFrameSize [0xFF, 0xFB, 0x90, 0x00] 0 = 417 \<and>
   Mp3Parser_getFrameSize [0xFF, 0xFB, 0x90, 0x00] 0 = 417"
proof -
  let ?b = "[0xFF, 0xFB, 0x90, 0x00 :: byte]"
  have r: "0 + 4 \<le> length ?b" by simp
  show ?thesis
    using getFrameSize_decodes_header [OF r refl]
    by (simp add: hdr_eval)
qed

text \<open>
  Claim C1 (the streaming scanner and the whole-buffer scanner give the same result on
  the same bytes) fails on the five bytes \<open>FF FB 90 00 00\<close>: the header announces a
  frame of 417 bytes of which five are there.  \<open>Mp3Parser.getFrameCount\<close> counts it and
  returns 1; the streaming scanner, which counts a frame only when
  \<open>offset + frameSize <= buffer.length\<close>, breaks, and ends with no frame found.
  (Lemma \<open>streaming_chunk_independent\<close> shows that the streaming result does not depend
  on the chunk boundaries, and \<open>scanners_agree\<close> that the two scanners agree unless the
  scan ends on such a cut-off frame.)
\<close>

theorem whole_buffer_counts_truncated_frame:
  "Mp3Parser_getFrameCount [0xFF, 0xFB, 0x90, 0x00, 0x00] = Inr 1 \<and>
   StreamingMp3Parser_getFrameCount [[0xFF, 0xFB, 0x90, 0x00, 0x00]] End
     = Inl (InvalidMp3Error ''No valid MP3 frames found'')"
proof -
  let ?B = "[0xFF, 0xFB, 0x90, 0x00, 0x00 :: byte]"
  have h: "frame_sync ?B 0" "getFrameSize ?B 0 = 417"
    by (rule header417_at; simp add: header417_def)+
  then have s: "stream_loop ?B 0 0 = (0, 0)"
    by (intro stream_loop_break) simp_all
  have "loop_cond ?B 0" by (simp add: loop_cond_iff)
  with mp3_loop_stream_loop [OF s] h have "mp3_loop ?B 0 0 = (417, 1)" by simp
  with s show ?thesis
    using streaming_count [of "[?B]"] by (simp add: whole_buffer_count)
qed

text \<open>
  Claim C3.  A single valid frame (sync at its start, accepted by the decoder with a
  size equal to the frame's length \<open>L\<close>), delivered as its first \<open>k\<close> bytes and then
  the rest, \<open>1 \<le> k < L\<close>: the first chunk leaves the scanner with all \<open>k\<close> bytes
  pending and nothing counted, the second chunk brings the count to 1, and the end of the
  stream resolves with 1.
\<close>

theorem split_frame_counted_once:
  assumes "frame_sync frame 0" and "getFrameSize frame 0 = length frame" and "0 < length frame"
    and "1 \<le> k" and "k < length frame"
  shows "on_data initial_state (take k frame)
           = \<lparr>buffer = take k frame, offset = 0, frameCount = 0\<rparr> \<and>
         frameCount (on_data (on_data initial_state (take k frame)) (drop k frame)) = 1 \<and>
         StreamingMp3Parser_getFrameCount [take k frame, drop k frame] End = Inr 1"
proof -
  let ?a = "take k frame"
  have L: "96 \<le> length frame" using assms(2,3) by (rule frame_longer_than_header)
  have first: "stream_loop ?a 0 0 = (0, 0)"
  proof (cases "loop_cond ?a 0")
    case False
    then show ?thesis by (rule stream_loop_halt)
  next
    case True
    then have r: "0 + 4 \<le> length ?a" "0 + 4 \<le> length frame"
      using assms(5) by (simp_all add: loop_cond_iff)
    then have w: "take 4 (drop 0 ?a) = take 4 (drop 0 frame)"
      using assms(5) by (simp add: min_def)
    from window_local [OF r w] assms have "frame_sync ?a 0" "getFrameSize ?a 0 = length frame"
      by simp_all
    then show ?thesis
      using assms(3,5) by (intro stream_loop_break) simp_all
  qed
  have whole: "stream_loop frame 0 0 = (length frame, 1)"
  proof -
    have "loop_cond frame 0" using L by (simp add: loop_cond_iff)
    from stream_loop_frame [OF this assms(1), of 0] assms(2,3)
    have "stream_loop frame 0 0 = stream_loop frame (length frame) 1" by simp
    then show ?thesis by (simp add: stream_loop_halt loop_cond_iff)
  qed
  have s1: "on_data initial_state ?a = \<lparr>buffer = ?a, offset = 0, frameCount = 0\<rparr>"
    using first by (simp add: on_data_def initial_state_def)
  have "on_data \<lparr>buffer = ?a, offset = 0, frameCount = 0\<rparr> (drop k frame)
          = \<lparr>buffer = [], offset = 0, frameCount = 1\<rparr>"
    using whole L by (simp add: on_data_def)
  then have s2: "on_data (on_data initial_state ?a) (drop k frame)
          = \<lparr>buffer = [], offset = 0, frameCount = 1\<rparr>"
    by (simp only: s1)
  have "StreamingMp3Parser_getFrameCount [?a, drop k frame] End
          = on_end (on_data (on_data initial_state ?a) (drop k frame))"
    by (simp add: StreamingMp3Parser_getFrameCount_def)
  then have "StreamingMp3Parser_getFrameCount [?a, drop k frame] End = Inr 1"
    by (simp only: s2) (simp add: on_end_def)
  with s1 s2 show ?thesis by simp
qed

theorem split_frame_counted_once_witness:
  "frame_sync frame417 0 \<and> getFrameSize frame417 0 = length frame417 \<and> 0 < length frame417 \<and>
   (1::nat) \<le> 200 \<and> 200 < length frame417 \<and>
   StreamingMp3Parser_getFrameCount [take 200 frame417, drop 200 frame417] End = Inr 1"
proof -
  have a: "frame_sync frame417 0" and b: "getFrameSize frame417 0 = length frame417"
    using header417_at [of 0 frame417] by (simp_all add: frame417_def header417_def)
  have c: "0 < length frame417" and d: "(1::nat) \<le> 200" and e: "200 < length frame417"
    by (simp_all add: frame417_def header417_def)
  from split_frame_counted_once [OF a b c d e] a b c d e show ?thesis by simp
qed



text \<open>
  Claim C5.  For a file that exists under a non-empty path, read to its end without a
  read error: the outcome is \<open>File is empty\<close>, raised by the constructor, when the file
  has no bytes; otherwise \<open>No valid MP3 frames found\<close> when the scan of all the data has
  counted no frame; otherwise the frame count, which is positive.  The same three cases
  hold for \<open>Mp3Parser\<close> on a buffer that is present.
\<close>

theorem scan_outcomes:
  assumes "filePath \<noteq> []" and "fs filePath = Some B" and "concat chunks = B"
  shows "streaming_scan fs filePath chunks End =
           (if B = [] then Inl (InvalidMp3Error ''File is empty'')
            else if frameCount (foldl on_data initial_state chunks) = 0
              then Inl (InvalidMp3Error ''No valid MP3 frames found'')
            else Inr (frameCount (foldl on_data initial_state chunks))) \<and>
         frameCount (foldl on_data initial_state chunks) = snd (stream_loop B 0 0) \<and>
         whole_buffer_scan (Some B) =
           (if B = [] then Inl (InvalidMp3Error ''File is empty'')
            else if snd (mp3_loop B 0 0) = 0
              then Inl (InvalidMp3Error ''No valid MP3 frames found'')
            else Inr (snd (mp3_loop B 0 0))) \<and>
         (B = [] \<longrightarrow> new_StreamingMp3Parser fs filePath = Inl (InvalidMp3Error ''File is empty'') \<and>
                     new_Mp3Parser (Some B) = Inl (InvalidMp3Error ''File is empty'')) \<and>
         (\<forall>n. streaming_scan fs filePath chunks End = Inr n \<or> whole_buffer_scan (Some B) = Inr n
               \<longrightarrow> 0 < n \<and> B \<noteq> [])"
proof -
  have c: "frameCount (foldl on_data initial_state chunks) = snd (stream_loop B 0 0)"
    using assms(3) by (simp add: streaming_frameCount)
  have s: "streaming_scan fs filePath chunks End =
           (if B = [] then Inl (InvalidMp3Error ''File is empty'')
            else if frameCount (foldl on_data initial_state chunks) = 0
              then Inl (InvalidMp3Error ''No valid MP3 frames found'')
            else Inr (frameCount (foldl on_data initial_state chunks)))"
    using assms(1,2)
    by (simp add: streaming_scan_def new_StreamingMp3Parser_def
        StreamingMp3Parser_getFrameCount_def on_end_def)
  have w: "whole_buffer_scan (Some B) =
           (if B = [] then Inl (InvalidMp3Error ''File is empty'')
            else if snd (mp3_loop B 0 0) = 0
              then Inl (InvalidMp3Error ''No valid MP3 frames found'')
            else Inr (snd (mp3_loop B 0 0)))"
    by (simp add: whole_buffer_scan_def new_Mp3Parser_def whole_buffer_count)
  have e: "B = [] \<longrightarrow> new_StreamingMp3Parser fs filePath = Inl (InvalidMp3Error ''File is empty'') \<and>
                     new_Mp3Parser (Some B) = Inl (InvalidMp3Error ''File is empty'')"
    using assms(1,2) by (simp add: new_StreamingMp3Parser_def new_Mp3Parser_def)
  have p: "0 < n \<and> B \<noteq> []"
    if "streaming_scan fs filePath chunks End = Inr n \<or> whole_buffer_scan (Some B) = Inr n" for n
    using that unfolding s w by (auto split: if_splits)
  from s c w e p show ?thesis by blast
qed

theorem scan_outcomes_witness:
  "''upload.mp3'' \<noteq> [] \<and>
   [''upload.mp3'' \<mapsto> frame417] ''upload.mp3'' = Some frame417 \<and>
   concat [take 100 frame417, drop 100 frame417] = frame417 \<and>
   streaming_scan [''upload.mp3'' \<mapsto> frame417] ''upload.mp3''
     [take 100 frame417, drop 100 frame417] End = Inr 1 \<and>
   whole_buffer_scan (Some frame417) = Inr 1"
proof -
  have a: "''upload.mp3'' \<noteq> []" by simp
  have b: "[''upload.mp3'' \<mapsto> frame417] ''upload.mp3'' = Some frame417" by simp
  have c: "concat [take 100 frame417, drop 100 frame417] = frame417" by simp
  have f: "frame_sync frame417 0" "getFrameSize frame417 0 = 417" "length frame417 = 417"
    using header417_at [of 0 frame417] by (simp_all add: frame417_def header417_def)
  then have s: "stream_loop frame417 0 0 = (417, 1)"
    using stream_loop_one_frame [of frame417 0 0] by simp
  with mp3_loop_stream_loop [OF s] have m: "mp3_loop frame417 0 0 = (417, 1)"
    using f(3) by (simp add: loop_cond_iff)
  have n: "frame417 \<noteq> []" using f(3) by auto
  from scan_outcomes [where filePath = "''upload.mp3''" and fs = "[''upload.mp3'' \<mapsto> frame417]"
      and B = frame417 and chunks = "[take 100 frame417, drop 100 frame417]", OF a b c]
    a b c s m n
  show ?thesis by simp
qed

text \<open>
  Claim C6.  Where the loop runs, the two bytes at the cursor match the sync pattern and
  the decoder rejects the header (returns 0), the body of either loop moves the cursor by
  exactly one byte and leaves the count alone; so if a complete valid frame starts at the
  next byte, that frame is the next one counted.
\<close>

theorem rejected_sync_advances_one:
  assumes "loop_cond buf off" and "frame_sync buf off" and "getFrameSize buf off = 0"
  shows "stream_body buf off cnt = Advance (off + 1) cnt \<and>
         mp3_body buf off cnt = (off + 1, cnt) \<and>
         stream_loop buf off cnt = stream_loop buf (off + 1) cnt \<and>
         mp3_loop buf off cnt = mp3_loop buf (off + 1) cnt \<and>
         (frame_sync buf (off + 1) \<and> 0 < getFrameSize buf (off + 1) \<and>
          off + 1 + getFrameSize buf (off + 1) \<le> length buf \<longrightarrow>
            stream_loop buf off cnt
              = stream_loop buf (off + 1 + getFrameSize buf (off + 1)) (cnt + 1) \<and>
            mp3_loop buf off cnt
              = mp3_loop buf (off + 1 + getFrameSize buf (off + 1)) (cnt + 1))"
proof -
  have b: "stream_body buf off cnt = Advance (off + 1) cnt" "mp3_body buf off cnt = (off + 1, cnt)"
    using assms by (simp_all add: stream_body_def mp3_body_def Mp3Parser_getFrameSize_eq)
  have s: "stream_loop buf off cnt = stream_loop buf (off + 1) cnt"
    using assms by (simp add: stream_loop_skip)
  have m: "mp3_loop buf off cnt = mp3_loop buf (off + 1) cnt"
    using assms by (simp add: mp3_loop_skip)
  have n: "stream_loop buf off cnt = stream_loop buf (off + 1 + getFrameSize buf (off + 1)) (cnt + 1) \<and>
           mp3_loop buf off cnt = mp3_loop buf (off + 1 + getFrameSize buf (off + 1)) (cnt + 1)"
    if f: "frame_sync buf (off + 1)" "0 < getFrameSize buf (off + 1)"
      "off + 1 + getFrameSize buf (off + 1) \<le> length buf"
  proof -
    from getFrameSize_bounds [OF f(2)] f(3) have lc: "loop_cond buf (off + 1)"
      by (simp add: loop_cond_iff)
    from stream_loop_frame [OF lc f(1,2) f(3), of cnt] mp3_loop_frame [OF lc f(1,2), of cnt] s m
    show ?thesis by simp
  qed
  from b s m n show ?thesis by blast
qed

theorem rejected_sync_advances_one_witness:
  "loop_cond (0xFF # frame417) 0 \<and> frame_sync (0xFF # frame417) 0 \<and>
   getFrameSize (0xFF # frame417) 0 = 0 \<and>
   frame_sync (0xFF # frame417) (0 + 1) \<and> getFrameSize (0xFF # frame417) (0 + 1) = 417 \<and>
   stream_loop (0xFF # frame417) 0 0 = (418, 1) \<and> mp3_loop (0xFF # frame417) 0 0 = (418, 1)"
proof -
  let ?b = "0xFF # frame417"
  have l: "length frame417 = 417" by (simp add: frame417_def header417_def)
  have a: "loop_cond ?b 0" by (simp add: loop_cond_iff l)
  have b: "frame_sync ?b 0"
    by (simp add: frame417_def header417_def frame_sync_def buf_at_def FRAME_SYNC_BYTE1_def
        FRAME_SYNC_BYTE2_MASK_def js_and_def ToInt32_def)
  have "spec_bitrateIndex (header_at ?b 0) = 15"
    by (simp add: frame417_def header417_def header_at_def header_of_def spec_bitrateIndex_def)
  then have "spec_decode (header_at ?b 0) = None"
    by (simp add: spec_decode_def)
  then have c: "getFrameSize ?b 0 = 0"
    using l by (simp add: getFrameSize_spec_decode)
  have f: "frame_sync ?b (0 + 1)" "getFrameSize ?b (0 + 1) = 417"
    using header417_at [of "0 + 1" ?b] l by (simp_all add: frame417_def header417_def)
  have h: "\<not> loop_cond ?b 418" by (simp add: loop_cond_iff l)
  have g: "0 < getFrameSize ?b (0 + 1)" "0 + 1 + getFrameSize ?b (0 + 1) \<le> length ?b"
    using f(2) l by simp_all
  from rejected_sync_advances_one [OF a b c, of 0] f(1) g
  have "stream_loop ?b 0 0 = stream_loop ?b (0 + 1 + getFrameSize ?b (0 + 1)) (0 + 1)"
    and "mp3_loop ?b 0 0 = mp3_loop ?b (0 + 1 + getFrameSize ?b (0 + 1)) (0 + 1)"
    by blast+
  then have "stream_loop ?b 0 0 = (418, 1)" "mp3_loop ?b 0 0 = (418, 1)"
    using h by (simp_all only: f(2)) (simp_all add: stream_loop_halt mp3_loop_halt)
  with a b c f show ?thesis by simp
qed

text \<open>
  Claim C7.  The header \<open>FF FB 90 00\<close> passes the sync test and decodes to
  \<open>floor(144 * 128 * 1000 / 44100) + 0 = 417\<close>.  The buffer of 417 bytes that starts
  with it and is zero behind it counts as 1 frame, and ten such frames one after the
  other count as 10, on the whole-buffer scanner and, for every way of cutting the bytes
  into chunks, on the streaming scanner.
\<close>

theorem frames_of_417_bytes:
  "frame_sync header417 0 \<and>
   getFrameSize header417 0 = 144 * 128 * 1000 div 44100 + 0 \<and>
   getFrameSize header417 0 = 417 \<and>
   length frame417 = 417 \<and> take 4 frame417 = header417 \<and>
   Mp3Parser_getFrameCount frame417 = Inr 1 \<and>
   (\<forall>chunks. concat chunks = frame417 \<longrightarrow>
      StreamingMp3Parser_getFrameCount chunks End = Inr 1) \<and>
   Mp3Parser_getFrameCount (concat (replicate 10 frame417)) = Inr 10 \<and>
   (\<forall>chunks. concat chunks = concat (replicate 10 frame417) \<longrightarrow>
      StreamingMp3Parser_getFrameCount chunks End = Inr 10)"
proof -
  have one: "concat (replicate 1 frame417) = frame417" by simp
  from frames417_counts [of 1]
  have s1: "stream_loop frame417 0 0 = (417, 1)" and m1: "mp3_loop frame417 0 0 = (417, 1)"
    by (simp_all only: one) simp_all
  from frames417_counts [of 10]
  have s10: "stream_loop (concat (replicate 10 frame417)) 0 0 = (4170, 10)"
    and m10: "mp3_loop (concat (replicate 10 frame417)) 0 0 = (4170, 10)"
    by simp_all
  have a: "StreamingMp3Parser_getFrameCount chunks End = Inr 1" if "concat chunks = frame417"
    for chunks using that s1 by (simp add: streaming_count)
  have b: "StreamingMp3Parser_getFrameCount chunks End = Inr 10"
    if "concat chunks = concat (replicate 10 frame417)"
    for chunks using that s10 by (simp only: streaming_count) simp
  have c: "Mp3Parser_getFrameCount frame417 = Inr 1"
    using m1 by (simp add: whole_buffer_count)
  have d: "Mp3Parser_getFrameCount (concat (replicate 10 frame417)) = Inr 10"
    using m10 by (simp only: whole_buffer_count) simp
  have e: "take 4 frame417 = header417"
    by (simp add: frame417_def header417_def)
  from a b c d e header417_decodes frame417_length show ?thesis by simp
qed

theorem frames_of_417_bytes_witness:
  "concat [take 5 frame417, drop 5 frame417] = frame417 \<and>
   StreamingMp3Parser_getFrameCount [take 5 frame417, drop 5 frame417] End = Inr 1 \<and>
   concat (replicate 10 frame417) = concat (replicate 10 frame417) \<and>
   StreamingMp3Parser_getFrameCount (replicate 10 frame417) End = Inr 10"
proof -
  have a: "concat [take 5 frame417, drop 5 frame417] = frame417" by simp
  from frames_of_417_bytes a show ?thesis by blast
qed

text \<open>
  Claim C8, as stated (the pass goes on whenever \<open>cursor + 4 \<le> length\<close> and halts only
  with fewer than four bytes left or on a frame that is not yet complete), does not hold.
  On four zero bytes the cursor 0 has four bytes ahead and the bytes do not pass the sync
  test, so nothing is awaited; yet neither loop runs its body, the cursor stays at 0 and
  the \<open>data\<close> handler keeps all four bytes pending.  The same happens on the four bytes
  \<open>FF FB 90 00\<close>.
\<close>

theorem scan_pass_halts_with_four_bytes_left:
  "0 + 4 \<le> length [0, 0, 0, 0 :: byte] \<and> \<not> loop_cond [0, 0, 0, 0] 0 \<and>
   \<not> frame_sync [0, 0, 0, 0] 0 \<and>
   stream_loop [0, 0, 0, 0] 0 0 = (0, 0) \<and> mp3_loop [0, 0, 0, 0] 0 0 = (0, 0) \<and>
   on_data initial_state [0, 0, 0, 0] = \<lparr>buffer = [0, 0, 0, 0], offset = 0, frameCount = 0\<rparr> \<and>
   0 + 4 \<le> length header417 \<and> \<not> loop_cond header417 0 \<and> frame_sync header417 0 \<and>
   stream_loop header417 0 0 = (0, 0) \<and> mp3_loop header417 0 0 = (0, 0)"
proof -
  let ?z = "[0, 0, 0, 0 :: byte]"
  have n: "\<not> loop_cond ?z 0" by (simp add: loop_cond_iff)
  then have l: "stream_loop ?z 0 0 = (0, 0)" "mp3_loop ?z 0 0 = (0, 0)"
    by (simp_all add: stream_loop_halt mp3_loop_halt)
  have f: "\<not> frame_sync ?z 0"
    by (simp add: frame_sync_def buf_at_def FRAME_SYNC_BYTE1_def)
  have d: "on_data initial_state ?z = \<lparr>buffer = ?z, offset = 0, frameCount = 0\<rparr>"
    using l(1) by (simp add: on_data_def initial_state_def)
  have h: "length header417 = 4" by (simp add: header417_def)
  then have m: "\<not> loop_cond header417 0" by (simp add: loop_cond_iff)
  then have k: "stream_loop header417 0 0 = (0, 0)" "mp3_loop header417 0 0 = (0, 0)"
    by (simp_all add: stream_loop_halt mp3_loop_halt)
  from n l f d h m k header417_decodes(1) show ?thesis by simp
qed

text \<open>
  Claim C8, amended.  The loops test \<open>offset < buffer.length - 4\<close>: a pass runs the
  body, which starts with the sync check, at every cursor with more than four bytes ahead
  (\<open>cursor + 4 < length\<close>), and does nothing at a cursor with at most four bytes ahead.
  The streaming pass ends only at a cursor with at most four bytes ahead or on a frame
  that the decoder accepts and that runs past the end of the buffer; the whole-buffer
  pass ends only at a cursor with at most four bytes ahead.
\<close>

theorem scan_pass_bound:
  "(loop_cond buf off \<longleftrightarrow> off + 4 < length buf) \<and>
   (off + 4 < length buf \<longrightarrow>
      stream_loop buf off cnt =
        (case stream_body buf off cnt of
           Advance off' cnt' \<Rightarrow> stream_loop buf off' cnt'
         | Break \<Rightarrow> (off, cnt)) \<and>
      mp3_loop buf off cnt = mp3_loop buf (fst (mp3_body buf off cnt)) (snd (mp3_body buf off cnt))) \<and>
   (length buf \<le> off + 4 \<longrightarrow>
      stream_loop buf off cnt = (off, cnt) \<and> mp3_loop buf off cnt = (off, cnt)) \<and>
   (\<forall>p c. stream_loop buf off cnt = (p, c) \<longrightarrow>
      length buf \<le> p + 4 \<or>
      (frame_sync buf p \<and> 0 < getFrameSize buf p \<and> length buf < p + getFrameSize buf p)) \<and>
   (\<forall>p c. mp3_loop buf off cnt = (p, c) \<longrightarrow> length buf \<le> p + 4)"
proof -
  have run: "stream_loop buf off cnt =
        (case stream_body buf off cnt of
           Advance off' cnt' \<Rightarrow> stream_loop buf off' cnt'
         | Break \<Rightarrow> (off, cnt)) \<and>
      mp3_loop buf off cnt = mp3_loop buf (fst (mp3_body buf off cnt)) (snd (mp3_body buf off cnt))"
    if "off + 4 < length buf"
    using that by (simp add: stream_loop.simps [of buf off cnt] mp3_loop.simps [of buf off cnt]
        loop_cond_iff)
  have stop: "stream_loop buf off cnt = (off, cnt) \<and> mp3_loop buf off cnt = (off, cnt)"
    if "length buf \<le> off + 4"
    using that by (simp add: stream_loop_halt mp3_loop_halt loop_cond_iff)
  have se: "length buf \<le> p + 4 \<or>
      (frame_sync buf p \<and> 0 < getFrameSize buf p \<and> length buf < p + getFrameSize buf p)"
    if "stream_loop buf off cnt = (p, c)" for p c
    using stream_loop_exit [OF that] by (auto simp: loop_cond_iff)
  have me: "length buf \<le> p + 4" if "mp3_loop buf off cnt = (p, c)" for p c
    using mp3_loop_exit [OF that] by (simp add: loop_cond_iff)
  from run stop se me show ?thesis by (simp add: loop_cond_iff)
qed

theorem scan_pass_bound_witness:
  "loop_cond (header417 @ [0]) 0 \<and> 0 + 4 < length (header417 @ [0]) \<and>
   stream_body (header417 @ [0]) 0 0 = Break \<and>
   stream_loop (header417 @ [0]) 0 0 = (0, 0) \<and>
   frame_sync (header417 @ [0]) 0 \<and> 0 < getFrameSize (header417 @ [0]) 0 \<and>
   length (header417 @ [0]) < 0 + getFrameSize (header417 @ [0]) 0 \<and>
   length [0, 0, 0, 0 :: byte] \<le> 0 + 4 \<and> stream_loop [0, 0, 0, 0] 0 0 = (0, 0) \<and>
   mp3_loop [0, 0, 0, 0] 0 0 = (0, 0)"
proof -
  let ?B = "header417 @ [0]"
  have l: "length header417 = 4" by (simp add: header417_def)
  have h: "frame_sync ?B 0" "getFrameSize ?B 0 = 417"
    by (rule header417_at; simp add: header417_def)+
  have a: "0 + 4 < length ?B" by (simp add: l)
  have b: "stream_body ?B 0 0 = Break"
    using h by (simp add: stream_body_Break l)
  have z: "length [0, 0, 0, 0 :: byte] \<le> 0 + 4" by simp
  from scan_pass_bound [where buf = ?B and off = 0 and cnt = 0] a b
  have s: "loop_cond ?B 0" "stream_loop ?B 0 0 = (0, 0)" by simp_all
  from scan_pass_bound [where buf = "[0, 0, 0, 0]" and off = 0 and cnt = 0] z
  have t: "stream_loop [0, 0, 0, 0] 0 0 = (0, 0)" "mp3_loop [0, 0, 0, 0] 0 0 = (0, 0)"
    by simp_all
  from s t a b h l z show ?thesis by simp
qed

text \<open>
  Claim C9.  After any sequence of chunks the pending buffer of the streaming scanner
  holds at most 1441 bytes, so the buffer it scans for the next chunk holds at most that
  chunk's length plus 1441 bytes.  1441 is the largest size the decoder returns, reached
  by the header \<open>FF FB EA 00\<close> (320 kbit/s, 32000 Hz, padding).
\<close>

theorem pending_buffer_bounded:
  "length (buffer (foldl on_data initial_state chunks)) \<le> 1441 \<and>
   length (buffer (foldl on_data initial_state chunks) @ chunk) \<le> length chunk + 1441 \<and>
   getFrameSize buf off \<le> 1441 \<and>
   getFrameSize [0xFF, 0xFB, 0xEA, 0x00] 0 = 1441"
  using pending_after_chunks [of chunks] getFrameSize_le [of buf off] header_max_decodes
  by simp

text \<open>
  Claim C10.  The body of either loop moves the cursor strictly forward: by exactly 1 when
  the sync test fails or the decoder rejects, by the frame size, which is then positive,
  when a frame is counted; the streaming loop's only other move is its \<open>break\<close>.  So
  both loops, written with the \<open>while\<close> combinator, return on every buffer, and they
  return the values of the two recursive functions \<open>mp3_loop\<close> and \<open>stream_loop\<close>,
  whose termination is proved on the number of bytes behind the cursor.
\<close>

theorem scan_loops_terminate:
  "off < fst (mp3_body buf off cnt) \<and>
      (\<not> frame_sync buf off \<or> getFrameSize buf off = 0
         \<longrightarrow> mp3_body buf off cnt = (off + 1, cnt)) \<and>
      (frame_sync buf off \<and> 0 < getFrameSize buf off
         \<longrightarrow> mp3_body buf off cnt = (off + getFrameSize buf off, cnt + 1)) \<and>
      (\<forall>off' cnt'. stream_body buf off cnt = Advance off' cnt' \<longrightarrow>
         off < off' \<and>
         (\<not> frame_sync buf off \<or> getFrameSize buf off = 0 \<longrightarrow> off' = off + 1 \<and> cnt' = cnt) \<and>
         (frame_sync buf off \<and> 0 < getFrameSize buf off
            \<longrightarrow> off' = off + getFrameSize buf off \<and> cnt' = cnt + 1)) \<and>
   mp3_while buf (off, cnt) = Some (mp3_loop buf off cnt) \<and>
   stream_while buf (off, cnt, False) =
     Some (fst (stream_loop buf off cnt), snd (stream_loop buf off cnt),
           loop_cond buf (fst (stream_loop buf off cnt)))"
  using mp3_body_advances [of off buf cnt] stream_body_advances [of buf off cnt]
    mp3_while_terminates [of buf off cnt] stream_while_terminates [of buf off cnt]
  by blast

theorem scan_loops_terminate_witness:
  "loop_cond frame417 0 \<and> frame_sync frame417 0 \<and> 0 < getFrameSize frame417 0 \<and>
   mp3_body frame417 0 0 = (417, 1) \<and> stream_body frame417 0 0 = Advance 417 1 \<and>
   mp3_while frame417 (0, 0) = Some (417, 1) \<and>
   stream_while frame417 (0, 0, False) = Some (417, 1, False)"
proof -
  have f: "frame_sync frame417 0" "getFrameSize frame417 0 = 417"
    using header417_at [of 0 frame417] by (simp_all add: frame417_def header417_def)
  have lc: "loop_cond frame417 0" "\<not> loop_cond frame417 417"
    by (simp_all add: loop_cond_iff frame417_length)
  have s: "stream_body frame417 0 0 = Advance 417 1"
    using f by (simp add: stream_body_def frame417_length)
  have c: "stream_loop frame417 0 0 = (417, 1)" "mp3_loop frame417 0 0 = (417, 1)"
    using frames417_counts [of 1] by simp_all
  from scan_loops_terminate [where buf = frame417 and off = 0 and cnt = 0] f lc s c
  show ?thesis by simp
qed

end
